theory Spec2Isabelle
  imports Main "HOL-Library.Word"
begin

section \<open>JavaScript strings and the library calls used by the server\<close>

text \<open>
  A JavaScript string is a sequence of 16-bit code units. The literals of the source are
  ASCII, so they are written as HOL strings and embedded with \<open>ascii\<close>.
\<close>

type_synonym code_unit = "16 word"
type_synonym js_string = "code_unit list"

definition ascii :: "string \<Rightarrow> js_string" where
  "ascii s = map of_char s"

text \<open>
  \<open>String.prototype.trim\<close> removes the WhiteSpace and LineTerminator code points of
  ECMAScript from both ends: TAB, LF, VT, FF, CR, SP, NBSP, U+1680, U+2000..U+200A,
  U+2028, U+2029, U+202F, U+205F, U+3000 and U+FEFF.
\<close>

definition isWhiteSpace :: "code_unit \<Rightarrow> bool" where
  "isWhiteSpace c =
     ((0x09 \<le> c \<and> c \<le> 0x0D) \<or> c = 0x20 \<or> c = 0xA0 \<or> c = 0x1680 \<or>
      (0x2000 \<le> c \<and> c \<le> 0x200A) \<or> c = 0x2028 \<or> c = 0x2029 \<or> c = 0x202F \<or>
      c = 0x205F \<or> c = 0x3000 \<or> c = 0xFEFF)"

definition trim :: "js_string \<Rightarrow> js_string" where
  "trim s = rev (dropWhile isWhiteSpace (rev (dropWhile isWhiteSpace s)))"

text \<open>
  \<open>String.prototype.toLowerCase\<close>. The letters A..Z go to a..z; the only code points
  outside ASCII whose lower-case form contains an ASCII character are the Kelvin sign
  U+212A (to \<open>k\<close>) and U+0130 (to \<open>i\<close> followed by U+0307). Every other code unit is
  kept as it is: its lower-case form lies outside ASCII again and is white space only
  when the code unit is, and the tests of \<open>sanitizeSql\<close> (for \<open>select\<close>, for the
  banned words between word boundaries, for \<open>--\<close> and \<open>/*\<close>) look for ASCII
  characters only, so they cannot tell the difference.
\<close>

definition lowerUnit :: "code_unit \<Rightarrow> js_string" where
  "lowerUnit c =
     (if 0x41 \<le> c \<and> c \<le> 0x5A then [c + 0x20]
      else if c = 0x212A then [0x6B]
      else if c = 0x0130 then [0x69, 0x0307]
      else [c])"

definition toLowerCase :: "js_string \<Rightarrow> js_string" where
  "toLowerCase s = concat (map lowerUnit s)"

text \<open>
  \<open>s.startsWith(p)\<close>, \<open>s.endsWith(p)\<close>, \<open>s.includes(p)\<close> (called \<open>includesStr\<close>
  here) and \<open>s.slice(0, -1)\<close>.
\<close>

fun startsWith :: "js_string \<Rightarrow> js_string \<Rightarrow> bool" where
  "startsWith s [] = True"
| "startsWith [] (p # ps) = False"
| "startsWith (c # cs) (p # ps) = (c = p \<and> startsWith cs ps)"

definition endsWith :: "js_string \<Rightarrow> js_string \<Rightarrow> bool" where
  "endsWith s p = startsWith (rev s) (rev p)"

fun includesStr :: "js_string \<Rightarrow> js_string \<Rightarrow> bool" where
  "includesStr [] p = (p = [])"
| "includesStr (c # cs) p = (startsWith (c # cs) p \<or> includesStr cs p)"

definition slice_0_m1 :: "js_string \<Rightarrow> js_string" where
  "slice_0_m1 s = take (length s - 1) s"

text \<open>
  \<open>s.split(sep)\<close> for a separator of one code unit: the pieces between the occurrences
  of the separator, empty pieces included; the empty string gives one empty piece.
\<close>

fun split :: "js_string \<Rightarrow> code_unit \<Rightarrow> js_string list" where
  "split [] sep = [[]]"
| "split (c # cs) sep =
     (if c = sep then [] # split cs sep
      else (case split cs sep of [] \<Rightarrow> [[c]] | f # fs \<Rightarrow> (c # f) # fs))"

subsection \<open>The regular expression of the banned operations\<close>

text \<open>
  The source tests \<^verbatim>\<open>/\b(insert|update|delete|alter|drop|truncate|create|grant|revoke|comment|copy|call)\b/\<close>
  on the lower-cased text. The expression has no flags, so a word character is one of
  \<open>[A-Za-z0-9_]\<close>, and \<open>\b\<close> holds at a position when exactly one of the code units
  left and right it is a word character (a missing neighbour counts as none).
\<close>

definition isWordChar :: "code_unit \<Rightarrow> bool" where
  "isWordChar c =
     ((0x41 \<le> c \<and> c \<le> 0x5A) \<or> (0x61 \<le> c \<and> c \<le> 0x7A) \<or>
      (0x30 \<le> c \<and> c \<le> 0x39) \<or> c = 0x5F)"

definition bannedWords :: "js_string list" where
  "bannedWords = map ascii
     [''insert'', ''update'', ''delete'', ''alter'', ''drop'', ''truncate'',
      ''create'', ''grant'', ''revoke'', ''comment'', ''copy'', ''call'']"

fun isWordAt :: "code_unit option \<Rightarrow> bool" where
  "isWordAt None = False"
| "isWordAt (Some c) = isWordChar c"

definition wordBoundary :: "code_unit option \<Rightarrow> code_unit option \<Rightarrow> bool" where
  "wordBoundary left right = (isWordAt left \<noteq> isWordAt right)"

fun headOpt :: "js_string \<Rightarrow> code_unit option" where
  "headOpt [] = None"
| "headOpt (c # cs) = Some c"

fun lastOpt :: "code_unit option \<Rightarrow> js_string \<Rightarrow> code_unit option" where
  "lastOpt left [] = left"
| "lastOpt left (c # cs) = lastOpt (Some c) cs"

text \<open>
  One attempt of the matcher at a position: \<open>left\<close> is the code unit to the left of
  the position, \<open>rest\<close> the text from the position on. An alternative \<open>w\<close> matches when
  \<open>\b\<close> holds here, \<open>rest\<close> starts with \<open>w\<close>, and \<open>\b\<close> holds behind \<open>w\<close>.
\<close>

definition matchHere :: "code_unit option \<Rightarrow> js_string \<Rightarrow> bool" where
  "matchHere left rest =
     (wordBoundary left (headOpt rest) \<and>
      list_ex (\<lambda>w. startsWith rest w \<and>
                   wordBoundary (lastOpt left w) (headOpt (drop (length w) rest)))
              bannedWords)"

text \<open>\<open>banned.test(s)\<close>: the matcher is tried at every position, from left to right.\<close>

fun bannedScan :: "code_unit option \<Rightarrow> js_string \<Rightarrow> bool" where
  "bannedScan left [] = matchHere left []"
| "bannedScan left (c # cs) = (matchHere left (c # cs) \<or> bannedScan (Some c) cs)"

definition banned_test :: "js_string \<Rightarrow> bool" where
  "banned_test s = bannedScan None s"

section \<open>The SQL sanitizer\<close>

text \<open>
  The argument of \<open>sanitizeSql\<close> is a value decoded from JSON, so it need not be a
  string. Of a value that is not a string only its truthiness matters here.
\<close>

datatype js_value = JsUndefined | JsString js_string | JsOther bool

text \<open>The five errors the sanitizer throws, named as in the specification.\<close>

datatype sql_error =
  SqlMissing | NotASelect | MultipleStatements | ForbiddenOperation | CommentsNotAllowed

fun errorMessage :: "sql_error \<Rightarrow> string" where
  "errorMessage SqlMissing = ''SQL missing.''"
| "errorMessage NotASelect = ''Only SELECT queries are allowed.''"
| "errorMessage MultipleStatements = ''Multiple statements are not allowed.''"
| "errorMessage ForbiddenOperation = ''Query contains a forbidden operation.''"
| "errorMessage CommentsNotAllowed = ''Comments are not allowed in generated SQL.''"

definition statementCount :: "js_string \<Rightarrow> nat" where
  "statementCount trimmed = length (filter (\<lambda>s. trim s \<noteq> []) (split trimmed 0x3B))"

definition sanitizeString :: "js_string \<Rightarrow> sql_error + js_string" where
  "sanitizeString sql =
     (if sql = [] then Inl SqlMissing
      else
        let trimmed = trim sql;
            lowered = toLowerCase trimmed
        in
          if \<not> startsWith lowered (ascii ''select'') then Inl NotASelect
          else if statementCount trimmed > 1 then Inl MultipleStatements
          else if banned_test lowered then Inl ForbiddenOperation
          else if includesStr lowered (ascii ''--'') \<or> includesStr lowered (ascii ''/*'')
            then Inl CommentsNotAllowed
          else Inr (if endsWith trimmed (ascii '';'') then slice_0_m1 trimmed else trimmed))"

fun sanitizeSql :: "js_value \<Rightarrow> sql_error + js_string" where
  "sanitizeSql (JsString sql) = sanitizeString sql"
| "sanitizeSql JsUndefined = Inl SqlMissing"
| "sanitizeSql (JsOther b) = Inl SqlMissing"

subsection \<open>The rules of the specification, each on its own\<close>

text \<open>
  The specification lists five rules, in this order. \<open>violates e s\<close> reads the rule
  whose error is \<open>e\<close> on the string \<open>s\<close> alone, whatever the other rules say, and
  \<open>violatedRules s\<close> lists the errors of all the rules that \<open>s\<close> violates, in the
  order of the specification.
\<close>

fun violates :: "sql_error \<Rightarrow> js_string \<Rightarrow> bool" where
  "violates SqlMissing s = (s = [])"
| "violates NotASelect s = (\<not> startsWith (toLowerCase (trim s)) (ascii ''select''))"
| "violates MultipleStatements s = (statementCount (trim s) > 1)"
| "violates ForbiddenOperation s = banned_test (toLowerCase (trim s))"
| "violates CommentsNotAllowed s =
     (includesStr (toLowerCase (trim s)) (ascii ''--'') \<or>
      includesStr (toLowerCase (trim s)) (ascii ''/*''))"

definition ruleOrder :: "sql_error list" where
  "ruleOrder =
     [SqlMissing, NotASelect, MultipleStatements, ForbiddenOperation, CommentsNotAllowed]"

definition violatedRules :: "js_string \<Rightarrow> sql_error list" where
  "violatedRules s = filter (\<lambda>e. violates e s) ruleOrder"

text \<open>The string \<open>sanitizeSql\<close> returns when no rule is violated.\<close>

definition stripped :: "js_string \<Rightarrow> js_string" where
  "stripped s = (if endsWith (trim s) (ascii '';'') then slice_0_m1 (trim s) else trim s)"

section \<open>The schema snapshotter\<close>

text \<open>
  The clock, the connection pool and the model API are outside the program. One call of
  the server is modelled against an environment that fixes what each of them answers,
  the two module variables \<open>cachedSchema\<close> and \<open>cachedSchemaLoadedAt\<close> are passed in and
  returned, and every call to the outside is recorded as an event. A rejected promise
  or a thrown error is the left injection, carrying the message of the error.
\<close>

type_synonym message = js_string

datatype event =
  PoolConnect | QueryColumns | QueryCounts | ClientRelease |
  ModelCall js_string | PoolQuery js_string

text \<open>
  The rows of the two metadata queries. The second query names its columns
  \<open>table_schema\<close>, \<open>table_name\<close> and \<open>est_rows\<close>; the first two are called \<open>nspname\<close>
  and \<open>relname\<close> here, after the catalog columns they rename. The driver delivers a
  \<open>bigint\<close> as a string and SQL NULL as \<open>null\<close>.
\<close>

record column_row =
  table_schema :: js_string
  table_name :: js_string
  column_name :: js_string
  data_type :: js_string

record count_row =
  nspname :: js_string
  relname :: js_string
  est_rows :: "js_string option"

record cache =
  cachedSchema :: "js_string option"
  cachedSchemaLoadedAt :: int

definition initialCache :: cache where
  "initialCache = \<lparr>cachedSchema = None, cachedSchemaLoadedAt = 0\<rparr>"

record db_env =
  now :: int
  connectResult :: "message option"
  columnsResult :: "message + column_row list"
  countsResult :: "message + count_row list"

definition SCHEMA_CACHE_MS :: int where
  "SCHEMA_CACHE_MS = 5 * 60 * 1000"

text \<open>
  A JavaScript \<open>Map\<close> keeps its keys in the order of their first insertion; \<open>set\<close> on
  a key that is present replaces the value in place.
\<close>

type_synonym ('k, 'v) js_map = "('k \<times> 'v) list"

fun mapSet :: "'k \<Rightarrow> 'v \<Rightarrow> ('k, 'v) js_map \<Rightarrow> ('k, 'v) js_map" where
  "mapSet k v [] = [(k, v)]"
| "mapSet k v ((k', v') # m) = (if k' = k then (k, v) # m else (k', v') # mapSet k v m)"

definition mapGet :: "('k, 'v) js_map \<Rightarrow> 'k \<Rightarrow> 'v option" where
  "mapGet m k = map_of m k"

text \<open>\<open>xs.join(sep)\<close>.\<close>

fun join :: "js_string list \<Rightarrow> js_string \<Rightarrow> js_string" where
  "join [] sep = []"
| "join [x] sep = x"
| "join (x # y # ys) sep = x @ sep @ join (y # ys) sep"

record table_entry =
  columns :: "js_string list"
  meta :: js_string

definition tableKey :: "js_string \<Rightarrow> js_string \<Rightarrow> js_string" where
  "tableKey schema name = schema @ ascii ''.'' @ name"

definition countMapOf :: "count_row list \<Rightarrow> (js_string, js_string option) js_map" where
  "countMapOf counts =
     foldl (\<lambda>countMap row. mapSet (tableKey (nspname row) (relname row)) (est_rows row) countMap)
       [] counts"

text \<open>
  One turn of \<open>columns.rows.forEach\<close>. \<open>est != null\<close> is false both for a key that
  the count map lacks and for a count of \<open>null\<close>.
\<close>

definition metaOf :: "(js_string, js_string option) js_map \<Rightarrow> js_string \<Rightarrow> js_string" where
  "metaOf countMap key =
     (case mapGet countMap key of
        Some (Some est) \<Rightarrow> ascii '' (est_rows ~'' @ est @ ascii '')''
      | Some None \<Rightarrow> []
      | None \<Rightarrow> [])"

definition addColumn ::
  "(js_string, js_string option) js_map \<Rightarrow> (js_string, table_entry) js_map \<Rightarrow> column_row
     \<Rightarrow> (js_string, table_entry) js_map" where
  "addColumn countMap tableMap row =
     (let key = tableKey (table_schema row) (table_name row);
          tableMap' =
            (if mapGet tableMap key = None
             then mapSet key \<lparr>columns = [], meta = metaOf countMap key\<rparr> tableMap
             else tableMap)
      in case mapGet tableMap' key of
           None \<Rightarrow> tableMap'
         | Some entry \<Rightarrow>
             mapSet key
               (entry\<lparr>columns :=
                  columns entry @ [column_name row @ ascii '' ('' @ data_type row @ ascii '')'']\<rparr>)
               tableMap')"

definition tableMapOf ::
  "(js_string, js_string option) js_map \<Rightarrow> column_row list \<Rightarrow> (js_string, table_entry) js_map"
  where
  "tableMapOf countMap cols = foldl (addColumn countMap) [] cols"

definition schemaLine :: "js_string \<times> table_entry \<Rightarrow> js_string" where
  "schemaLine kv = fst kv @ meta (snd kv) @ ascii '': '' @ join (columns (snd kv)) (ascii '', '')"

definition buildSnapshot :: "column_row list \<Rightarrow> count_row list \<Rightarrow> js_string" where
  "buildSnapshot cols counts =
     join (map schemaLine (tableMapOf (countMapOf counts) cols)) [0x0A]"

text \<open>
  The part of \<open>loadSchema\<close> behind the cache test. \<open>pool.connect()\<close> is awaited before
  the \<open>try\<close>, so a failure to connect has nothing to release. Both queries are
  sent before either is awaited; the client runs them in the order sent, so when both
  fail the first rejection is that of the column query.
\<close>

definition refreshSchema ::
  "'a db_env_scheme \<Rightarrow> cache \<Rightarrow> (message + js_string) \<times> cache \<times> event list" where
  "refreshSchema env st =
     (case connectResult env of
        Some err \<Rightarrow> (Inl err, st, [PoolConnect])
      | None \<Rightarrow>
          (case columnsResult env of
             Inl err \<Rightarrow> (Inl err, st, [PoolConnect, QueryColumns, QueryCounts, ClientRelease])
           | Inr cols \<Rightarrow>
               (case countsResult env of
                  Inl err \<Rightarrow>
                    (Inl err, st, [PoolConnect, QueryColumns, QueryCounts, ClientRelease])
                | Inr counts \<Rightarrow>
                    (let schema = buildSnapshot cols counts
                     in (Inr schema,
                         st\<lparr>cachedSchema := Some schema, cachedSchemaLoadedAt := now env\<rparr>,
                         [PoolConnect, QueryColumns, QueryCounts, ClientRelease])))))"

text \<open>
  \<open>loadSchema\<close>. The test \<open>cachedSchema && ...\<close> is a test of truthiness: \<open>null\<close> and
  the empty string both fail it.
\<close>

definition loadSchema ::
  "'a db_env_scheme \<Rightarrow> cache \<Rightarrow> (message + js_string) \<times> cache \<times> event list" where
  "loadSchema env st =
     (case cachedSchema st of
        None \<Rightarrow> refreshSchema env st
      | Some cached \<Rightarrow>
          if cached \<noteq> [] \<and> now env - cachedSchemaLoadedAt st < SCHEMA_CACHE_MS
          then (Inr cached, st, [])
          else refreshSchema env st)"

section \<open>The query endpoint\<close>

text \<open>
  What \<open>JSON.parse\<close> makes of the content the model returns: \<open>null\<close>, or a value of
  which the code reads the properties \<open>sql\<close> and \<open>notes\<close> (a property that is missing
  reads as \<open>undefined\<close>).
\<close>

datatype parsed = ParsedNull | Parsed js_value js_value

record query_result =
  rows :: "(js_string \<times> js_value) list list"
  rowCount :: int

record request_env = db_env +
  modelResult :: "message + js_string option"
  jsonParse :: "js_string \<Rightarrow> parsed option"
  queryResult :: "js_string \<Rightarrow> message + query_result"

datatype response_body =
  ErrorBody message
| QueryBody js_string js_value "(js_string \<times> js_value) list list" int

type_synonym response = "nat \<times> response_body"

fun truthy :: "js_value \<Rightarrow> bool" where
  "truthy JsUndefined = False"
| "truthy (JsString s) = (s \<noteq> [])"
| "truthy (JsOther b) = b"

text \<open>
  \<open>buildSql\<close>, in two parts: the call of \<open>loadSchema\<close> and of the model, and
  \<open>afterModel\<close>, what the code does with the answer of the model. \<open>modelResult\<close> is
  the content of the first choice of the completion (\<open>None\<close> when there is none), or the
  error of the call. The messages sent to the model are not modelled; the event of the
  call keeps the question. Reading \<open>parsed.sql\<close> of \<open>null\<close> throws a TypeError, whose
  message is that of V8.
\<close>

definition afterModel :: "request_env \<Rightarrow> message + js_string \<times> js_value" where
  "afterModel env =
     (case modelResult env of
        Inl err \<Rightarrow> Inl err
      | Inr None \<Rightarrow> Inl (ascii ''No response from model.'')
      | Inr (Some content) \<Rightarrow>
          if content = [] then Inl (ascii ''No response from model.'')
          else
            (case jsonParse env content of
               None \<Rightarrow> Inl (ascii ''Model returned invalid JSON.'')
             | Some ParsedNull \<Rightarrow>
                 Inl (ascii ''Cannot read properties of null (reading 'sql'' @ [0x27, 0x29])
             | Some (Parsed sqlValue notesValue) \<Rightarrow>
                 if \<not> truthy sqlValue then Inl (ascii ''Model did not return SQL.'')
                 else
                   (case sanitizeSql sqlValue of
                      Inl e \<Rightarrow> Inl (ascii (errorMessage e))
                    | Inr sql \<Rightarrow>
                        Inr (sql, if truthy notesValue then notesValue else JsString []))))"

definition buildSql ::
  "request_env \<Rightarrow> js_string \<Rightarrow> cache \<Rightarrow> (message + js_string \<times> js_value) \<times> cache \<times> event list"
  where
  "buildSql env question st =
     (case loadSchema env st of
        (Inl err, st', tr) \<Rightarrow> (Inl err, st', tr)
      | (Inr schema, st', tr) \<Rightarrow> (afterModel env, st', tr @ [ModelCall question]))"

text \<open>The handler of \<open>POST /api/query\<close>; \<open>question\<close> is \<open>req.body.question\<close>.\<close>

definition questionMissing :: "js_value \<Rightarrow> bool" where
  "questionMissing question =
     (case question of JsString q \<Rightarrow> q = [] \<or> trim q = [] | JsUndefined \<Rightarrow> True | JsOther b \<Rightarrow> True)"

definition postQuery :: "request_env \<Rightarrow> js_value \<Rightarrow> cache \<Rightarrow> response \<times> cache \<times> event list" where
  "postQuery env question st =
     (case question of
        JsString q \<Rightarrow>
          if q = [] \<or> trim q = [] then ((400, ErrorBody (ascii ''Question is required'')), st, [])
          else
            (case buildSql env (trim q) st of
               (Inl err, st', tr) \<Rightarrow> ((400, ErrorBody err), st', tr)
             | (Inr (sql, notes), st', tr) \<Rightarrow>
                 (case queryResult env sql of
                    Inl err \<Rightarrow> ((400, ErrorBody err), st', tr @ [PoolQuery sql])
                  | Inr result \<Rightarrow>
                      ((200, QueryBody sql notes (rows result) (rowCount result)), st',
                       tr @ [PoolQuery sql])))
      | JsUndefined \<Rightarrow> ((400, ErrorBody (ascii ''Question is required'')), st, [])
      | JsOther b \<Rightarrow> ((400, ErrorBody (ascii ''Question is required'')), st, []))"

section \<open>Facts about the string operations\<close>

lemma startsWith_iff: "startsWith s p \<longleftrightarrow> (\<exists>t. s = p @ t)"
  by (induction s p rule: startsWith.induct) auto

lemma includesStr_iff: "includesStr s p \<longleftrightarrow> (\<exists>a b. s = a @ p @ b)"
proof (induction s)
  case Nil
  show ?case by auto
next
  case (Cons c cs)
  show ?case
  proof
    assume "includesStr (c # cs) p"
    then consider "startsWith (c # cs) p" | "includesStr cs p" by auto
    then show "\<exists>a b. c # cs = a @ p @ b"
    proof cases
      case 1
      then obtain t where "c # cs = p @ t" by (auto simp: startsWith_iff)
      then have "c # cs = [] @ p @ t" by simp
      then show ?thesis by blast
    next
      case 2
      then obtain a b where "cs = a @ p @ b" using Cons.IH by blast
      then have "c # cs = (c # a) @ p @ b" by simp
      then show ?thesis by blast
    qed
  next
    assume "\<exists>a b. c # cs = a @ p @ b"
    then obtain a b where ab: "c # cs = a @ p @ b" by blast
    show "includesStr (c # cs) p"
    proof (cases a)
      case Nil
      with ab have "startsWith (c # cs) p" by (auto simp: startsWith_iff)
      then show ?thesis by simp
    next
      case (Cons x a')
      with ab have "cs = a' @ p @ b" by simp
      then have "includesStr cs p" using Cons.IH by blast
      then show ?thesis by simp
    qed
  qed
qed

lemma endsWith_single: "endsWith s [c] \<longleftrightarrow> s \<noteq> [] \<and> last s = c"
  by (cases s rule: rev_cases) (auto simp: endsWith_def)

lemma slice_butlast: "slice_0_m1 s = butlast s"
  by (simp add: slice_0_m1_def butlast_conv_take)

lemma toLowerCase_append: "toLowerCase (a @ b) = toLowerCase a @ toLowerCase b"
  by (simp add: toLowerCase_def)

lemma toLowerCase_Nil: "toLowerCase [] = []"
  by (simp add: toLowerCase_def)

lemma toLowerCase_Cons: "toLowerCase (c # cs) = lowerUnit c @ toLowerCase cs"
  by (simp add: toLowerCase_def)

lemma trim_eq_Nil_iff: "trim s = [] \<longleftrightarrow> (\<forall>c\<in>set s. isWhiteSpace c)"
proof
  assume "trim s = []"
  then have "dropWhile isWhiteSpace (rev (dropWhile isWhiteSpace s)) = []"
    by (simp add: trim_def)
  then have "\<forall>c\<in>set (dropWhile isWhiteSpace s). isWhiteSpace c"
    by (simp add: dropWhile_eq_Nil_conv)
  then have "dropWhile isWhiteSpace s = []"
    by (metis hd_dropWhile hd_in_set)
  then show "\<forall>c\<in>set s. isWhiteSpace c"
    by (simp add: dropWhile_eq_Nil_conv)
next
  assume "\<forall>c\<in>set s. isWhiteSpace c"
  then have d: "dropWhile isWhiteSpace s = []" by simp
  show "trim s = []" unfolding trim_def d by simp
qed

lemma trim_id: "t \<noteq> [] \<Longrightarrow> \<not> isWhiteSpace (hd t) \<Longrightarrow> \<not> isWhiteSpace (last t) \<Longrightarrow> trim t = t"
proof -
  assume a: "t \<noteq> []" "\<not> isWhiteSpace (hd t)" "\<not> isWhiteSpace (last t)"
  then have 1: "dropWhile isWhiteSpace t = t"
    by (cases t) auto
  from a have "dropWhile isWhiteSpace (rev t) = rev t"
    by (cases t rule: rev_cases) auto
  with 1 show ?thesis by (simp add: trim_def)
qed

lemma rev_dropWhile_takeWhile:
  "xs = rev (dropWhile P (rev xs)) @ rev (takeWhile P (rev xs))"
  by (metis rev_append rev_rev_ident takeWhile_dropWhile_id)

lemma trim_decomp:
  "\<exists>a b. s = a @ trim s @ b \<and> (\<forall>c\<in>set a. isWhiteSpace c) \<and> (\<forall>c\<in>set b. isWhiteSpace c)"
proof -
  let ?a = "takeWhile isWhiteSpace s"
  let ?m = "dropWhile isWhiteSpace s"
  let ?b = "rev (takeWhile isWhiteSpace (rev ?m))"
  have "?m = trim s @ ?b"
    unfolding trim_def by (rule rev_dropWhile_takeWhile)
  moreover have "s = ?a @ ?m" by simp
  ultimately have "s = ?a @ trim s @ ?b" by metis
  moreover have "\<forall>c\<in>set ?a. isWhiteSpace c"
    by (auto dest: set_takeWhileD)
  moreover have "\<forall>c\<in>set ?b. isWhiteSpace c"
    by (auto dest: set_takeWhileD)
  ultimately show ?thesis by blast
qed

lemma trim_hd_last:
  assumes "trim s \<noteq> []"
  shows "\<not> isWhiteSpace (hd (trim s))" and "\<not> isWhiteSpace (last (trim s))"
proof -
  let ?m = "dropWhile isWhiteSpace s"
  let ?r = "dropWhile isWhiteSpace (rev ?m)"
  from assms have r: "?r \<noteq> []" by (simp add: trim_def)
  then have "\<not> isWhiteSpace (hd ?r)" by (rule hd_dropWhile)
  then show "\<not> isWhiteSpace (last (trim s))"
    using r by (simp add: trim_def last_rev)
  from r have m: "?m \<noteq> []" by (metis dropWhile.simps(1) rev.simps(1))
  then have hm: "\<not> isWhiteSpace (hd ?m)" by (rule hd_dropWhile)
  have "?m = rev ?r @ rev (takeWhile isWhiteSpace (rev ?m))"
    by (rule rev_dropWhile_takeWhile)
  then have "hd ?m = hd (rev ?r)" using r by (metis hd_append2 rev_is_Nil_conv)
  then show "\<not> isWhiteSpace (hd (trim s))"
    using hm by (simp add: trim_def)
qed

lemma trim_Nil: "trim [] = []"
  by (simp add: trim_def)

lemma trim_trim: "trim (trim s) = trim s"
proof (cases "trim s = []")
  case True
  then have "trim (trim s) = trim []" by simp
  then show ?thesis using True by (simp add: trim_Nil)
next
  case False
  then show ?thesis by (simp add: trim_id trim_hd_last)
qed

lemma trim_append_ws:
  assumes "t \<noteq> []" "\<not> isWhiteSpace (hd t)" "\<not> isWhiteSpace (last t)" "\<forall>c\<in>set w. isWhiteSpace c"
  shows "trim (t @ w) = t"
proof -
  from assms have 1: "dropWhile isWhiteSpace (t @ w) = t @ w"
    by (cases t) auto
  from assms have "dropWhile isWhiteSpace (rev w @ rev t) = rev t"
    by (cases t rule: rev_cases) (auto simp: dropWhile_append)
  with 1 show ?thesis by (simp add: trim_def)
qed

subsection \<open>Code units\<close>

lemma word_eq_numeral_unat:
  "(c = (numeral k :: code_unit)) = (unat c = unat (numeral k :: code_unit))"
  by (simp only: word_unat_eq_iff)

lemma isWhiteSpace_unat:
  "isWhiteSpace c \<longleftrightarrow>
     unat c \<in> {9, 10, 11, 12, 13, 32, 160, 5760, 8192, 8193, 8194, 8195, 8196, 8197, 8198,
               8199, 8200, 8201, 8202, 8232, 8233, 8239, 8287, 12288, 65279}"
  unfolding isWhiteSpace_def word_le_nat_alt word_eq_numeral_unat
  apply simp
  apply arith
  done

lemma isWordChar_unat:
  "isWordChar c \<longleftrightarrow>
     (65 \<le> unat c \<and> unat c \<le> 90) \<or> (97 \<le> unat c \<and> unat c \<le> 122) \<or>
     (48 \<le> unat c \<and> unat c \<le> 57) \<or> unat c = 95"
  unfolding isWordChar_def word_le_nat_alt word_eq_numeral_unat
  by simp

lemma unat_upper:
  "65 \<le> unat (c :: code_unit) \<Longrightarrow> unat c \<le> 90 \<Longrightarrow> unat (c + 0x20) = unat c + 32"
  by (simp add: unat_add_lem [THEN iffD1])

lemma lowerUnit_unat:
  "d \<in> set (lowerUnit c) \<Longrightarrow>
     (65 \<le> unat c \<and> unat c \<le> 90 \<and> unat d = unat c + 32) \<or>
     (unat c = 8490 \<and> unat d = 107) \<or>
     (unat c = 304 \<and> (unat d = 105 \<or> unat d = 775)) \<or>
     (\<not> (65 \<le> unat c \<and> unat c \<le> 90) \<and> unat c \<noteq> 8490 \<and> unat c \<noteq> 304 \<and> d = c)"
  unfolding lowerUnit_def word_le_nat_alt word_eq_numeral_unat
  by (auto simp: unat_upper split: if_splits)

lemma lowerUnit_fixed:
  "\<not> (65 \<le> unat c \<and> unat c \<le> 90) \<Longrightarrow> unat c \<noteq> 8490 \<Longrightarrow> unat c \<noteq> 304 \<Longrightarrow> lowerUnit c = [c]"
  unfolding lowerUnit_def word_le_nat_alt word_eq_numeral_unat
  by simp

lemma lowerUnit_ws: "isWhiteSpace c \<Longrightarrow> lowerUnit c = [c]"
  by (rule lowerUnit_fixed) (auto simp: isWhiteSpace_unat)

lemma isWhiteSpace_not_lower_image:
  "isWhiteSpace d \<Longrightarrow> (unat d < 97 \<or> 122 < unat d) \<and> unat d \<noteq> 775"
  by (auto simp: isWhiteSpace_unat)

lemma lowerUnit_ws_back:
  assumes "d \<in> set (lowerUnit c)" and "isWhiteSpace d"
  shows "isWhiteSpace c"
proof -
  from lowerUnit_unat [OF assms(1)] isWhiteSpace_not_lower_image [OF assms(2)]
  have "d = c" by arith
  with assms(2) show ?thesis by simp
qed

lemma lowerUnit_plain: "unat x < 65 \<Longrightarrow> lowerUnit x = [x]"
  by (rule lowerUnit_fixed) auto

lemma lowerUnit_plain_back: "unat x < 65 \<Longrightarrow> x \<in> set (lowerUnit c) \<Longrightarrow> c = x"
  by (drule lowerUnit_unat) auto

lemma toLowerCase_ws: "\<forall>c\<in>set w. isWhiteSpace c \<Longrightarrow> toLowerCase w = w"
  by (induction w) (auto simp: toLowerCase_Nil toLowerCase_Cons lowerUnit_ws)

lemma toLowerCase_blank_iff:
  "(\<forall>d\<in>set (toLowerCase f). isWhiteSpace d) \<longleftrightarrow> (\<forall>c\<in>set f. isWhiteSpace c)"
proof (induction f)
  case Nil
  show ?case by (simp add: toLowerCase_Nil)
next
  case (Cons c cs)
  have "(\<forall>d\<in>set (lowerUnit c). isWhiteSpace d) \<longleftrightarrow> isWhiteSpace c"
  proof
    assume a: "\<forall>d\<in>set (lowerUnit c). isWhiteSpace d"
    have "lowerUnit c \<noteq> []" by (simp add: lowerUnit_def)
    then obtain d where "d \<in> set (lowerUnit c)" by (cases "lowerUnit c") auto
    with a show "isWhiteSpace c" by (blast intro: lowerUnit_ws_back)
  next
    assume "isWhiteSpace c"
    then show "\<forall>d\<in>set (lowerUnit c). isWhiteSpace d" by (simp add: lowerUnit_ws)
  qed
  with Cons show ?case by (simp add: toLowerCase_Cons ball_Un)
qed

subsection \<open>Splitting\<close>

lemma split_not_Nil: "split s sep \<noteq> []"
  by (cases s) (auto split: list.splits)

lemma split_Cons_other:
  "c \<noteq> sep \<Longrightarrow> split (c # cs) sep = (c # hd (split cs sep)) # tl (split cs sep)"
  using split_not_Nil [of cs sep] by (cases "split cs sep") auto

lemma split_append:
  "split (x @ y) sep =
     butlast (split x sep) @ [last (split x sep) @ hd (split y sep)] @ tl (split y sep)"
proof (induction x)
  case Nil
  show ?case using split_not_Nil [of y sep] by simp
next
  case (Cons c cs)
  let ?S = "split cs sep"
  have S: "?S \<noteq> []" by (rule split_not_Nil)
  show ?case
  proof (cases "c = sep")
    case True
    then show ?thesis using Cons S by simp
  next
    case False
    show ?thesis
    proof (cases "butlast ?S = []")
      case True
      with S have "?S = [last ?S]" by (metis append_butlast_last_id append_Nil)
      then obtain f where f: "?S = [f]" by blast
      with False Cons show ?thesis by (simp add: split_Cons_other del: split.simps)
    next
      case b: False
      then obtain f fs where f: "butlast ?S = f # fs" by (cases "butlast ?S") auto
      with S have "?S = (f # fs) @ [last ?S]" by (metis append_butlast_last_id)
      then have S2: "?S = f # (fs @ [last ?S])" by simp
      have hd: "hd ?S = f" using S2 by (metis list.sel(1))
      have tl: "tl ?S = fs @ [last ?S]" using S2 by (metis list.sel(3))
      have bl: "butlast (tl ?S) = fs" using tl by (metis butlast_snoc)
      have lt: "last (tl ?S) = last ?S" using tl by (metis last_snoc)
      have tlne: "tl ?S \<noteq> []" using tl by simp
      from False have "split ((c # cs) @ y) sep =
          (c # hd (split (cs @ y) sep)) # tl (split (cs @ y) sep)"
        by (simp add: split_Cons_other del: split.simps)
      also have "\<dots> = (c # f) # fs @ [last ?S @ hd (split y sep)] @ tl (split y sep)"
        unfolding Cons.IH f by simp
      finally show ?thesis
        using False f by (simp add: split_Cons_other hd tlne bl lt del: split.simps)
    qed
  qed
qed

lemma split_snoc_sep: "split (x @ [sep]) sep = split x sep @ [[]]"
proof -
  have "split [sep] sep = [[], []]" by simp
  then show ?thesis
    using split_not_Nil [of x sep] by (simp add: split_append)
qed

lemma statementCount_snoc_semi: "statementCount (t @ [0x3B]) = statementCount t"
  by (simp add: statementCount_def split_snoc_sep trim_Nil)

lemma statementCount_append_le: "statementCount x \<le> statementCount (x @ y)"
proof -
  let ?nb = "\<lambda>s. trim s \<noteq> []"
  let ?X = "split x 0x3B"
  let ?h = "hd (split y 0x3B)"
  have X: "?X = butlast ?X @ [last ?X]"
    using split_not_Nil [of x "0x3B"] by simp
  have imp: "?nb (last ?X) \<Longrightarrow> ?nb (last ?X @ ?h)"
    by (auto simp: trim_eq_Nil_iff)
  have "length (filter ?nb ?X) = length (filter ?nb (butlast ?X @ [last ?X]))"
    using X by simp
  also have "\<dots> \<le> length (filter ?nb (butlast ?X @ [last ?X @ ?h]))"
    using imp by auto
  also have "\<dots> \<le> length (filter ?nb (butlast ?X @ [last ?X @ ?h] @ tl (split y 0x3B)))"
    by simp
  finally show ?thesis
    by (simp add: statementCount_def split_append)
qed

lemma split_prepend:
  "sep \<notin> set l \<Longrightarrow> split (l @ x) sep = (l @ hd (split x sep)) # tl (split x sep)"
proof (induction l)
  case Nil
  show ?case using split_not_Nil [of x sep] by simp
next
  case (Cons c l)
  then have "c \<noteq> sep" by auto
  then show ?case using Cons by (simp add: split_Cons_other del: split.simps)
qed

lemma split_toLowerCase:
  "split (toLowerCase s) 0x3B = map toLowerCase (split s 0x3B)"
proof (induction s)
  case Nil
  show ?case by (simp add: toLowerCase_Nil)
next
  case (Cons c cs)
  have ne: "split cs 0x3B \<noteq> []" by (rule split_not_Nil)
  show ?case
  proof (cases "c = 0x3B")
    case True
    then have "lowerUnit c = [0x3B]" by (simp add: lowerUnit_plain)
    with True Cons show ?thesis by (simp add: toLowerCase_Cons toLowerCase_Nil)
  next
    case False
    have "0x3B \<notin> set (lowerUnit c)"
    proof
      assume "0x3B \<in> set (lowerUnit c)"
      then have "c = 0x3B" by (rule lowerUnit_plain_back [rotated]) simp
      with False show False by simp
    qed
    then have "split (toLowerCase (c # cs)) 0x3B =
        (lowerUnit c @ hd (split (toLowerCase cs) 0x3B)) # tl (split (toLowerCase cs) 0x3B)"
      by (simp add: toLowerCase_Cons split_prepend)
    then show ?thesis
      using False ne Cons
      by (simp add: split_Cons_other toLowerCase_Cons hd_map map_tl del: split.simps)
  qed
qed

lemma trim_toLowerCase_Nil_iff: "trim (toLowerCase f) = [] \<longleftrightarrow> trim f = []"
  by (simp only: trim_eq_Nil_iff toLowerCase_blank_iff)

lemma statementCount_toLowerCase: "statementCount (toLowerCase s) = statementCount s"
proof -
  have "filter (\<lambda>s. trim s \<noteq> []) (map toLowerCase (split s 0x3B)) =
        map toLowerCase (filter (\<lambda>s. trim s \<noteq> []) (split s 0x3B))"
    by (simp add: filter_map o_def trim_toLowerCase_Nil_iff)
  then show ?thesis
    by (simp add: statementCount_def split_toLowerCase)
qed

subsection \<open>The banned-word expression\<close>

lemma bannedWords_wordChars:
  "w \<in> set bannedWords \<Longrightarrow> w \<noteq> [] \<and> (\<forall>c\<in>set w. isWordChar c)"
  by (auto simp: bannedWords_def ascii_def isWordChar_def)

lemma lastOpt_snoc: "lastOpt left (w @ [c]) = Some c"
  by (induction w arbitrary: left) auto

lemma lastOpt_last: "w \<noteq> [] \<Longrightarrow> lastOpt left w = Some (last w)"
  by (cases w rule: rev_cases) (auto simp: lastOpt_snoc)

lemma lastOpt_append: "lastOpt left (a @ b) = lastOpt (lastOpt left a) b"
  by (induction a arbitrary: left) auto

lemma headOpt_hd: "s \<noteq> [] \<Longrightarrow> headOpt s = Some (hd s)"
  by (cases s) auto

lemma matchHere_iff:
  "matchHere left rest \<longleftrightarrow>
     (\<not> isWordAt left \<and>
      (\<exists>w post. rest = w @ post \<and> w \<in> set bannedWords \<and> \<not> isWordAt (headOpt post)))"
proof -
  have key: "\<And>w post. w \<in> set bannedWords \<Longrightarrow>
      wordBoundary left (headOpt (w @ post)) = (\<not> isWordAt left) \<and>
      wordBoundary (lastOpt left w) (headOpt post) = (\<not> isWordAt (headOpt post))"
  proof -
    fix w post
    assume "w \<in> set bannedWords"
    then have w: "w \<noteq> []" "\<forall>c\<in>set w. isWordChar c"
      using bannedWords_wordChars by blast+
    then have "isWordChar (hd w)" "isWordChar (last w)" by auto
    with w(1)
    show "wordBoundary left (headOpt (w @ post)) = (\<not> isWordAt left) \<and>
      wordBoundary (lastOpt left w) (headOpt post) = (\<not> isWordAt (headOpt post))"
      by (simp add: wordBoundary_def lastOpt_last headOpt_hd)
  qed
  show ?thesis
  proof
    assume "matchHere left rest"
    then obtain w where w: "wordBoundary left (headOpt rest)" "w \<in> set bannedWords"
        "startsWith rest w" "wordBoundary (lastOpt left w) (headOpt (drop (length w) rest))"
      by (auto simp: matchHere_def list_ex_iff)
    from w(3) obtain post where post: "rest = w @ post" by (auto simp: startsWith_iff)
    with w key [OF w(2), of post] have "\<not> isWordAt left" "\<not> isWordAt (headOpt post)"
      by auto
    with post w(2) show "\<not> isWordAt left \<and>
      (\<exists>w post. rest = w @ post \<and> w \<in> set bannedWords \<and> \<not> isWordAt (headOpt post))"
      by blast
  next
    assume "\<not> isWordAt left \<and>
      (\<exists>w post. rest = w @ post \<and> w \<in> set bannedWords \<and> \<not> isWordAt (headOpt post))"
    then obtain w post where a: "\<not> isWordAt left" "rest = w @ post" "w \<in> set bannedWords"
        "\<not> isWordAt (headOpt post)" by blast
    from key [OF a(3), of post] a
    have "wordBoundary left (headOpt rest)"
      "startsWith rest w \<and> wordBoundary (lastOpt left w) (headOpt (drop (length w) rest))"
      by (auto simp: startsWith_iff)
    with a(3) show "matchHere left rest"
      unfolding matchHere_def list_ex_iff by blast
  qed
qed

lemma bannedScan_iff:
  "bannedScan left s \<longleftrightarrow>
     (\<exists>pre w post. s = pre @ w @ post \<and> w \<in> set bannedWords \<and>
        \<not> isWordAt (lastOpt left pre) \<and> \<not> isWordAt (headOpt post))"
proof (induction s arbitrary: left)
  case Nil
  have "\<And>w. w \<in> set bannedWords \<Longrightarrow> w \<noteq> []" using bannedWords_wordChars by blast
  then show ?case by (auto simp: matchHere_iff)
next
  case (Cons c cs)
  show ?case
  proof
    assume "bannedScan left (c # cs)"
    then consider "matchHere left (c # cs)" | "bannedScan (Some c) cs" by auto
    then show "\<exists>pre w post. c # cs = pre @ w @ post \<and> w \<in> set bannedWords \<and>
        \<not> isWordAt (lastOpt left pre) \<and> \<not> isWordAt (headOpt post)"
    proof cases
      case 1
      then obtain w post where "\<not> isWordAt left" "c # cs = w @ post" "w \<in> set bannedWords"
          "\<not> isWordAt (headOpt post)" by (auto simp: matchHere_iff)
      then have "c # cs = [] @ w @ post \<and> w \<in> set bannedWords \<and>
          \<not> isWordAt (lastOpt left []) \<and> \<not> isWordAt (headOpt post)" by simp
      then show ?thesis by blast
    next
      case 2
      then obtain pre w post where "cs = pre @ w @ post" "w \<in> set bannedWords"
          "\<not> isWordAt (lastOpt (Some c) pre)" "\<not> isWordAt (headOpt post)"
        using Cons.IH by blast
      then have "c # cs = (c # pre) @ w @ post \<and> w \<in> set bannedWords \<and>
          \<not> isWordAt (lastOpt left (c # pre)) \<and> \<not> isWordAt (headOpt post)" by simp
      then show ?thesis by blast
    qed
  next
    assume "\<exists>pre w post. c # cs = pre @ w @ post \<and> w \<in> set bannedWords \<and>
        \<not> isWordAt (lastOpt left pre) \<and> \<not> isWordAt (headOpt post)"
    then obtain pre w post where a: "c # cs = pre @ w @ post" "w \<in> set bannedWords"
        "\<not> isWordAt (lastOpt left pre)" "\<not> isWordAt (headOpt post)" by blast
    show "bannedScan left (c # cs)"
    proof (cases pre)
      case Nil
      with a have "matchHere left (c # cs)" by (auto simp: matchHere_iff)
      then show ?thesis by simp
    next
      case (Cons x pre')
      with a have "cs = pre' @ w @ post" "\<not> isWordAt (lastOpt (Some c) pre')" by auto
      with a(2,4) have "bannedScan (Some c) cs" using Cons.IH by blast
      then show ?thesis by simp
    qed
  qed
qed

text \<open>
  What \<open>banned.test\<close> decides, without the matcher: some banned word occurs in the
  text with no word character directly before it and none directly after it.
\<close>

lemma banned_test_iff:
  "banned_test s \<longleftrightarrow>
     (\<exists>pre w post. s = pre @ w @ post \<and> w \<in> set bannedWords \<and>
        (pre = [] \<or> \<not> isWordChar (last pre)) \<and> (post = [] \<or> \<not> isWordChar (hd post)))"
proof -
  have 1: "\<And>pre. (\<not> isWordAt (lastOpt None pre)) = (pre = [] \<or> \<not> isWordChar (last pre))"
    by (case_tac "pre = []") (simp_all add: lastOpt_last)
  have 2: "\<And>post. (\<not> isWordAt (headOpt post)) = (post = [] \<or> \<not> isWordChar (hd post))"
    by (case_tac post) simp_all
  show ?thesis
    unfolding banned_test_def bannedScan_iff 1 2 ..
qed

section \<open>Properties of the sanitizer\<close>

text \<open>The definitions to unfold when the sanitizer is run on a given string.\<close>

lemmas sanitize_eval =
  ascii_def isWhiteSpace_def trim_def lowerUnit_def toLowerCase_def endsWith_def
  slice_0_m1_def isWordChar_def bannedWords_def wordBoundary_def matchHere_def
  banned_test_def statementCount_def sanitizeString_def stripped_def violatedRules_def
  ruleOrder_def

lemma toLowerCase_trim_Nil: "toLowerCase (trim []) = []"
  by (simp add: trim_Nil toLowerCase_Nil)

lemma startsWith_select_not_Nil:
  "startsWith (toLowerCase (trim s)) (ascii ''select'') \<Longrightarrow> s \<noteq> []"
  by (auto simp: toLowerCase_trim_Nil ascii_def)

lemma sanitizeString_Inr_iff:
  "sanitizeString s = Inr r \<longleftrightarrow>
     s \<noteq> [] \<and> startsWith (toLowerCase (trim s)) (ascii ''select'') \<and>
     statementCount (trim s) \<le> 1 \<and> \<not> banned_test (toLowerCase (trim s)) \<and>
     \<not> includesStr (toLowerCase (trim s)) (ascii ''--'') \<and>
     \<not> includesStr (toLowerCase (trim s)) (ascii ''/*'') \<and> r = stripped s"
  by (auto simp: sanitizeString_def stripped_def Let_def)

lemma sanitizeSql_Inr_string: "sanitizeSql v = Inr r \<Longrightarrow> \<exists>s. v = JsString s"
  by (cases v) auto

text \<open>
  Claim C6. The rules are tried in the order SqlMissing, NotASelect, MultipleStatements,
  ForbiddenOperation, CommentsNotAllowed, and the error of \<open>sanitizeSql\<close> is the first
  entry of the list of all violated rules; with no violated rule the call succeeds. A
  value that is not a string fails with SqlMissing.
\<close>

theorem sanitizeSql_first_violated_rule:
  "sanitizeSql v =
     (case v of
        JsString s \<Rightarrow> (case violatedRules s of [] \<Rightarrow> Inr (stripped s) | e # es \<Rightarrow> Inl e)
      | JsUndefined \<Rightarrow> Inl SqlMissing
      | JsOther b \<Rightarrow> Inl SqlMissing)"
proof (cases v)
  case (JsString s)
  have "sanitizeString s =
      (case violatedRules s of [] \<Rightarrow> Inr (stripped s) | e # es \<Rightarrow> Inl e)"
    by (simp add: sanitizeString_def violatedRules_def ruleOrder_def stripped_def Let_def)
  with JsString show ?thesis by simp
qed simp_all

theorem sanitizeSql_first_violated_rule_witness:
  "violatedRules (ascii ''select drop -- x'') = [ForbiddenOperation, CommentsNotAllowed] \<and>
   sanitizeSql (JsString (ascii ''select drop -- x'')) = Inl ForbiddenOperation"
proof -
  have v: "violatedRules (ascii ''select drop -- x'') = [ForbiddenOperation, CommentsNotAllowed]"
    by (simp add: sanitize_eval)
  show ?thesis
    using sanitizeSql_first_violated_rule [of "JsString (ascii ''select drop -- x'')"]
    by (simp add: v)
qed

subsection \<open>Comment markers survive trimming and lower-casing\<close>

lemma includesStr_dropWhile:
  "p \<noteq> [] \<Longrightarrow> \<not> P (hd p) \<Longrightarrow> includesStr s p \<Longrightarrow> includesStr (dropWhile P s) p"
proof (induction s)
  case Nil
  then show ?case by simp
next
  case (Cons c cs)
  show ?case
  proof (cases "P c")
    case True
    have "\<not> startsWith (c # cs) p"
    proof
      assume "startsWith (c # cs) p"
      then obtain t where "c # cs = p @ t" by (auto simp: startsWith_iff)
      with Cons.prems(1) have "hd p = c" by (cases p) auto
      with True Cons.prems(2) show False by simp
    qed
    with Cons.prems(3) have "includesStr cs p" by simp
    with Cons True show ?thesis by simp
  next
    case False
    with Cons.prems(3) show ?thesis by simp
  qed
qed

lemma includesStr_rev: "includesStr (rev s) (rev p) \<longleftrightarrow> includesStr s p"
proof -
  have "\<And>s p. includesStr s p \<Longrightarrow> includesStr (rev s) (rev p)"
  proof -
    fix s p :: js_string
    assume "includesStr s p"
    then obtain a b where "s = a @ p @ b" by (auto simp: includesStr_iff)
    then have "rev s = rev b @ rev p @ rev a" by simp
    then show "includesStr (rev s) (rev p)" unfolding includesStr_iff by blast
  qed
  from this [of s p] this [of "rev s" "rev p"] show ?thesis by auto
qed

lemma includesStr_trim:
  assumes "p \<noteq> []" "\<not> isWhiteSpace (hd p)" "\<not> isWhiteSpace (last p)" "includesStr s p"
  shows "includesStr (trim s) p"
proof -
  have "includesStr (dropWhile isWhiteSpace s) p"
    using assms by (simp add: includesStr_dropWhile)
  then have "includesStr (rev (dropWhile isWhiteSpace s)) (rev p)"
    by (simp add: includesStr_rev)
  moreover have "rev p \<noteq> []" "\<not> isWhiteSpace (hd (rev p))"
    using assms by (simp_all add: hd_rev)
  ultimately have "includesStr (dropWhile isWhiteSpace (rev (dropWhile isWhiteSpace s))) (rev p)"
    by (simp add: includesStr_dropWhile)
  then show ?thesis
    unfolding trim_def
    using includesStr_rev [of "dropWhile isWhiteSpace (rev (dropWhile isWhiteSpace s))" "rev p"]
    by simp
qed

lemma toLowerCase_plain: "\<forall>c\<in>set p. unat c < 65 \<Longrightarrow> toLowerCase p = p"
  by (induction p) (auto simp: toLowerCase_Nil toLowerCase_Cons lowerUnit_plain)

lemma includesStr_toLowerCase:
  assumes "\<forall>c\<in>set p. unat c < 65" "includesStr s p"
  shows "includesStr (toLowerCase s) p"
proof -
  from assms(2) obtain a b where "s = a @ p @ b" by (auto simp: includesStr_iff)
  then have "toLowerCase s = toLowerCase a @ p @ toLowerCase b"
    using assms(1) by (simp add: toLowerCase_append toLowerCase_plain)
  then show ?thesis unfolding includesStr_iff by blast
qed

lemma comment_marker_kept:
  assumes "includesStr s (ascii ''--'') \<or> includesStr s (ascii ''/*'')"
  shows "includesStr (toLowerCase (trim s)) (ascii ''--'') \<or>
         includesStr (toLowerCase (trim s)) (ascii ''/*'')"
proof -
  have 1: "includesStr s (ascii ''--'') \<Longrightarrow> includesStr (toLowerCase (trim s)) (ascii ''--'')"
    by (rule includesStr_toLowerCase, simp add: ascii_def,
        rule includesStr_trim) (simp_all add: ascii_def isWhiteSpace_def)
  have 2: "includesStr s (ascii ''/*'') \<Longrightarrow> includesStr (toLowerCase (trim s)) (ascii ''/*'')"
    by (rule includesStr_toLowerCase, simp add: ascii_def,
        rule includesStr_trim) (simp_all add: ascii_def isWhiteSpace_def)
  from assms 1 2 show ?thesis by blast
qed

subsection \<open>The single rules\<close>

text \<open>
  Claim C2. A string that passes rules 1 to 3 and whose trimmed, lower-cased text holds
  a banned word \<open>w\<close> as a whole word (no word character directly before it and none
  directly after it, wherever it stands, inside quotes too) fails with
  ForbiddenOperation.
\<close>

theorem banned_word_forbidden:
  assumes "s \<noteq> []"
    and "startsWith (toLowerCase (trim s)) (ascii ''select'')"
    and "statementCount (trim s) \<le> 1"
    and "toLowerCase (trim s) = pre @ w @ post"
    and "w \<in> set bannedWords"
    and "pre = [] \<or> \<not> isWordChar (last pre)"
    and "post = [] \<or> \<not> isWordChar (hd post)"
  shows "sanitizeSql (JsString s) = Inl ForbiddenOperation"
proof -
  have "banned_test (toLowerCase (trim s))"
    unfolding banned_test_iff using assms(4-7) by blast
  with assms(1-3) show ?thesis
    by (simp add: sanitizeString_def Let_def)
qed

theorem banned_word_forbidden_witness:
  "sanitizeSql (JsString (ascii ''select * from t where name = 'update me'' @ [0x27])) =
     Inl ForbiddenOperation"
  by (rule banned_word_forbidden [where pre = "ascii ''select * from t where name = '' @ [0x27]"
        and w = "ascii ''update''" and post = "ascii '' me'' @ [0x27]"])
     (simp_all add: sanitize_eval)

text \<open>
  Claim C3, as the code has it. A string fails with NotASelect exactly when it is not
  empty and its trimmed, lower-cased text does not begin with the six characters
  \<open>select\<close>. The empty string fails with SqlMissing, and the test is a prefix test:
  what follows the six characters plays no part in it.
\<close>

theorem not_a_select_iff:
  "sanitizeSql (JsString s) = Inl NotASelect \<longleftrightarrow>
     s \<noteq> [] \<and> \<not> startsWith (toLowerCase (trim s)) (ascii ''select'')"
  by (simp add: sanitizeString_def Let_def)

theorem not_a_select_iff_witness:
  "sanitizeSql (JsString (ascii '' Drop table users'')) = Inl NotASelect"
  using not_a_select_iff [of "ascii '' Drop table users''"]
  by (simp add: ascii_def isWhiteSpace_def trim_def lowerUnit_def toLowerCase_def)

text \<open>
  The claim as written fails: the empty string does not start with \<open>select\<close> and fails
  with SqlMissing, and \<open>selection 1\<close> is accepted.
\<close>

theorem not_a_select_counterexample:
  "\<not> startsWith (toLowerCase (trim [])) (ascii ''select'') \<and>
   sanitizeSql (JsString []) = Inl SqlMissing \<and>
   sanitizeSql (JsString (ascii ''selection 1'')) = Inr (ascii ''selection 1'')"
  by (simp add: sanitize_eval)

text \<open>
  Claim C4, as the code has it. A string whose trimmed, lower-cased text starts with
  \<open>select\<close> and that splits into more than one non-blank fragment fails with
  MultipleStatements; a string that passes all the rules and whose trimmed text is
  \<open>q\<close> followed by a semicolon is accepted, and the result is \<open>q\<close>.
\<close>

theorem multiple_statements_and_trailing_semicolon:
  "(startsWith (toLowerCase (trim s)) (ascii ''select'') \<and> statementCount (trim s) > 1
      \<longrightarrow> sanitizeSql (JsString s) = Inl MultipleStatements) \<and>
   (violatedRules s = [] \<and> trim s = q @ ascii '';''
      \<longrightarrow> sanitizeSql (JsString s) = Inr q)"
proof (intro conjI impI)
  assume "startsWith (toLowerCase (trim s)) (ascii ''select'') \<and> statementCount (trim s) > 1"
  then show "sanitizeSql (JsString s) = Inl MultipleStatements"
    using startsWith_select_not_Nil [of s] by (simp add: sanitizeString_def Let_def)
next
  assume a: "violatedRules s = [] \<and> trim s = q @ ascii '';''"
  then have "\<forall>e\<in>set ruleOrder. \<not> violates e s"
    by (simp add: violatedRules_def filter_empty_conv)
  then have "sanitizeString s = Inr (stripped s)"
    by (simp add: ruleOrder_def sanitizeString_def stripped_def Let_def)
  moreover have "stripped s = q"
    using a by (simp add: stripped_def endsWith_single slice_butlast ascii_def)
  ultimately show "sanitizeSql (JsString s) = Inr q" by simp
qed

theorem multiple_statements_and_trailing_semicolon_witness:
  "sanitizeSql (JsString (ascii ''select 1; select 2'')) = Inl MultipleStatements \<and>
   sanitizeSql (JsString (ascii ''select 1;'')) = Inr (ascii ''select 1'')"
proof -
  have 1: "startsWith (toLowerCase (trim (ascii ''select 1; select 2''))) (ascii ''select'') \<and>
      statementCount (trim (ascii ''select 1; select 2'')) > 1"
    by (simp add: sanitize_eval)
  have 2: "violatedRules (ascii ''select 1;'') = [] \<and>
      trim (ascii ''select 1;'') = ascii ''select 1'' @ ascii '';''"
    by (simp add: sanitize_eval)
  from 1 2
    multiple_statements_and_trailing_semicolon
      [of "ascii ''select 1; select 2''" "ascii ''select 1''"]
    multiple_statements_and_trailing_semicolon
      [of "ascii ''select 1;''" "ascii ''select 1''"]
  show ?thesis by blast
qed

text \<open>
  The claim as written fails: \<open>show a; show b\<close> has two non-blank fragments and fails
  with NotASelect, the earlier rule.
\<close>

theorem multiple_statements_counterexample:
  "statementCount (trim (ascii ''show a; show b'')) > 1 \<and>
   sanitizeSql (JsString (ascii ''show a; show b'')) = Inl NotASelect"
  by (simp add: sanitize_eval)

text \<open>
  Claim C5, as the code has it. A string that passes rules 1 to 4 and contains \<open>--\<close> or
  \<open>/*\<close> anywhere fails with CommentsNotAllowed.
\<close>

theorem comment_marker_rejected:
  assumes "s \<noteq> []"
    and "startsWith (toLowerCase (trim s)) (ascii ''select'')"
    and "statementCount (trim s) \<le> 1"
    and "\<not> banned_test (toLowerCase (trim s))"
    and "includesStr s (ascii ''--'') \<or> includesStr s (ascii ''/*'')"
  shows "sanitizeSql (JsString s) = Inl CommentsNotAllowed"
  using assms(1-4) comment_marker_kept [OF assms(5)]
  by (simp add: sanitizeString_def Let_def)

theorem comment_marker_rejected_witness:
  "sanitizeSql (JsString (ascii ''SELECT 1 -- note'')) = Inl CommentsNotAllowed"
  by (rule comment_marker_rejected) (simp_all add: sanitize_eval)

text \<open>
  The claim as written fails on its own example: \<open>select 1 -- comment\<close> holds the banned
  word \<open>comment\<close>, and the rule of the banned words comes first.
\<close>

theorem comment_marker_counterexample:
  "includesStr (ascii ''select 1 -- comment'') (ascii ''--'') \<and>
   sanitizeSql (JsString (ascii ''select 1 -- comment'')) = Inl ForbiddenOperation"
  by (simp add: sanitize_eval)

subsection \<open>Text appended behind an accepted statement\<close>

lemma isWhiteSpace_not_word: "isWhiteSpace c \<Longrightarrow> \<not> isWordChar c"
  by (auto simp: isWhiteSpace_unat isWordChar_unat)

lemma isWhiteSpace_not_select: "isWhiteSpace c \<Longrightarrow> c \<notin> set (ascii ''select'')"
  by (auto simp: ascii_def isWhiteSpace_def)

lemma startsWith_append: "startsWith A p \<Longrightarrow> startsWith (A @ B) p"
  by (auto simp: startsWith_iff)

lemma startsWith_cut:
  "startsWith (A @ B) p \<Longrightarrow> B = [] \<or> hd B \<notin> set p \<Longrightarrow> startsWith A p"
proof (induction p arbitrary: A)
  case Nil
  show ?case by simp
next
  case (Cons x ps)
  show ?case
  proof (cases A)
    case Nil
    with Cons.prems show ?thesis by (cases B) auto
  next
    case (Cons a A')
    with Cons.prems Cons.IH [of A'] show ?thesis by auto
  qed
qed

lemma includesStr_append: "includesStr A p \<Longrightarrow> includesStr (A @ B) p"
proof -
  assume "includesStr A p"
  then obtain a b where "A = a @ p @ b" by (auto simp: includesStr_iff)
  then have "A @ B = a @ p @ (b @ B)" by simp
  then show ?thesis unfolding includesStr_iff by blast
qed

lemma includesStr_snoc:
  assumes "p \<noteq> []" "last p \<noteq> c" "includesStr (x @ [c]) p"
  shows "includesStr x p"
proof -
  from assms(3) obtain a b where ab: "x @ [c] = a @ p @ b" by (auto simp: includesStr_iff)
  show ?thesis
  proof (cases b rule: rev_cases)
    case Nil
    with ab have "x @ [c] = a @ p" by simp
    then have "last (a @ p) = c" by (metis last_snoc)
    with assms(1,2) show ?thesis by simp
  next
    case (snoc b' y)
    with ab have "x @ [c] = (a @ p @ b') @ [y]" by simp
    then have "x = a @ p @ b'" by (simp only: append1_eq_conv)
    then show ?thesis unfolding includesStr_iff by blast
  qed
qed

lemma banned_test_append:
  assumes "banned_test A" "B = [] \<or> \<not> isWordChar (hd B)"
  shows "banned_test (A @ B)"
proof -
  from assms(1) obtain pre w post where a: "A = pre @ w @ post" "w \<in> set bannedWords"
      "pre = [] \<or> \<not> isWordChar (last pre)" "post = [] \<or> \<not> isWordChar (hd post)"
    unfolding banned_test_iff by blast
  have "A @ B = pre @ w @ (post @ B)" using a(1) by simp
  moreover have "post @ B = [] \<or> \<not> isWordChar (hd (post @ B))"
    using a(4) assms(2) by (cases post) auto
  ultimately show ?thesis
    unfolding banned_test_iff using a(2,3) by blast
qed

lemma banned_test_snoc:
  assumes "\<not> isWordChar c" "banned_test (x @ [c])"
  shows "banned_test x"
proof -
  from assms(2) obtain pre w post where a: "x @ [c] = pre @ w @ post" "w \<in> set bannedWords"
      "pre = [] \<or> \<not> isWordChar (last pre)" "post = [] \<or> \<not> isWordChar (hd post)"
    unfolding banned_test_iff by blast
  from a(2) have w: "w \<noteq> []" "isWordChar (last w)"
    using bannedWords_wordChars [of w] by auto
  show ?thesis
  proof (cases post rule: rev_cases)
    case Nil
    with a(1) have "x @ [c] = pre @ w" by simp
    then have "last (pre @ w) = c" by (metis last_snoc)
    with w assms(1) show ?thesis by simp
  next
    case (snoc post' y)
    with a(1) have "x @ [c] = (pre @ w @ post') @ [y]" by simp
    then have x: "x = pre @ w @ post'" by (simp only: append1_eq_conv)
    have "post' = [] \<or> \<not> isWordChar (hd post')"
      using a(4) snoc by (cases post') auto
    with x a(2,3) show ?thesis unfolding banned_test_iff by blast
  qed
qed

lemma sanitizeString_trim_cong:
  "s \<noteq> [] \<Longrightarrow> s' \<noteq> [] \<Longrightarrow> trim s = trim s' \<Longrightarrow> sanitizeString s = sanitizeString s'"
  by (simp add: sanitizeString_def)

text \<open>The shape of the trimmed text of an accepted string.\<close>

lemma accepted_trimmed:
  assumes "sanitizeString s = Inr r"
  shows "trim s \<noteq> []" and "\<not> isWhiteSpace (hd (trim s))" and "\<not> isWhiteSpace (last (trim s))"
    and "(r = trim s \<and> \<not> endsWith (trim s) [0x3B]) \<or> (trim s = r @ [0x3B] \<and> r \<noteq> [])"
proof -
  from assms have sel: "startsWith (toLowerCase (trim s)) (ascii ''select'')"
    and r: "r = stripped s"
    by (simp_all add: sanitizeString_Inr_iff)
  from sel show ne: "trim s \<noteq> []"
    by (auto simp: toLowerCase_Nil ascii_def)
  then show "\<not> isWhiteSpace (hd (trim s))" "\<not> isWhiteSpace (last (trim s))"
    by (rule trim_hd_last)+
  show "(r = trim s \<and> \<not> endsWith (trim s) [0x3B]) \<or> (trim s = r @ [0x3B] \<and> r \<noteq> [])"
  proof (cases "endsWith (trim s) [0x3B]")
    case False
    with r show ?thesis by (simp add: stripped_def ascii_def)
  next
    case True
    then have t: "trim s = butlast (trim s) @ [0x3B]"
      by (simp add: endsWith_single) (metis append_butlast_last_id)
    from True r have rb: "r = butlast (trim s)"
      by (simp add: stripped_def ascii_def slice_butlast)
    have "r \<noteq> []"
    proof
      assume "r = []"
      with t rb have "trim s = [0x3B]" by simp
      with sel show False by (simp add: toLowerCase_def lowerUnit_def ascii_def)
    qed
    with t rb show ?thesis by simp
  qed
qed

lemma accepted_tail:
  assumes "sanitizeString s = Inr r"
  shows "\<exists>T. trim s = trim r @ T \<and> toLowerCase T = T \<and>
           (T = [] \<or> (hd T \<notin> set (ascii ''select'') \<and> \<not> isWordChar (hd T)))"
proof -
  note sh = accepted_trimmed [OF assms]
  from sh(4) show ?thesis
  proof
    assume "r = trim s \<and> \<not> endsWith (trim s) [0x3B]"
    then have "trim s = trim r @ []" by (simp add: trim_trim)
    then show ?thesis by (metis toLowerCase_Nil)
  next
    assume a: "trim s = r @ [0x3B] \<and> r \<noteq> []"
    then have "hd r = hd (trim s)" by simp
    with sh(2) have hr: "\<not> isWhiteSpace (hd r)" by simp
    obtain x y where d: "r = x @ trim r @ y" "\<forall>c\<in>set x. isWhiteSpace c" "\<forall>c\<in>set y. isWhiteSpace c"
      using trim_decomp [of r] by blast
    have "x = []"
    proof (rule ccontr)
      assume "x \<noteq> []"
      then obtain c cs where x: "x = c # cs" by (cases x) auto
      then have "hd (x @ trim r @ y) = c" by simp
      with d(1) have "hd r = c" by metis
      moreover have "c \<in> set x" using x by simp
      ultimately show False using d(2) hr by simp
    qed
    with d(1) a have t: "trim s = trim r @ (y @ [0x3B])" by simp
    have low: "toLowerCase (y @ [0x3B]) = y @ [0x3B]"
      using d(3) by (simp add: toLowerCase_append toLowerCase_ws toLowerCase_plain)
    have "hd (y @ [0x3B]) \<notin> set (ascii ''select'') \<and> \<not> isWordChar (hd (y @ [0x3B]))"
    proof (cases y)
      case Nil
      then show ?thesis by (simp add: ascii_def isWordChar_def)
    next
      case (Cons c cs)
      with d(3) have "isWhiteSpace c" by simp
      with Cons show ?thesis by (simp add: isWhiteSpace_not_word isWhiteSpace_not_select)
    qed
    with t low show ?thesis by blast
  qed
qed

text \<open>
  Claim C1, as the code has it. When \<open>sanitizeSql\<close> accepts a string, the result is the
  trimmed input, or the trimmed input without its last semicolon; and the result,
  trimmed and lower-cased, starts with \<open>select\<close>, splits on the semicolon into at most
  one non-blank fragment, holds neither \<open>--\<close> nor \<open>/*\<close>, and no banned word matches in
  it.
\<close>

theorem sanitized_query_invariant:
  assumes "sanitizeSql (JsString s) = Inr r"
  shows "(r = trim s \<or> trim s = r @ ascii '';'') \<and>
         startsWith (toLowerCase (trim r)) (ascii ''select'') \<and>
         statementCount (toLowerCase (trim r)) \<le> 1 \<and>
         \<not> includesStr (toLowerCase (trim r)) (ascii ''--'') \<and>
         \<not> includesStr (toLowerCase (trim r)) (ascii ''/*'') \<and>
         \<not> banned_test (toLowerCase (trim r))"
proof -
  from assms have ok: "sanitizeString s = Inr r" by simp
  then have p: "startsWith (toLowerCase (trim s)) (ascii ''select'')"
      "statementCount (trim s) \<le> 1" "\<not> banned_test (toLowerCase (trim s))"
      "\<not> includesStr (toLowerCase (trim s)) (ascii ''--'')"
      "\<not> includesStr (toLowerCase (trim s)) (ascii ''/*'')"
    by (simp_all add: sanitizeString_Inr_iff)
  obtain T where T: "trim s = trim r @ T" "toLowerCase T = T"
      "T = [] \<or> (hd T \<notin> set (ascii ''select'') \<and> \<not> isWordChar (hd T))"
    using accepted_tail [OF ok] by blast
  have L: "toLowerCase (trim s) = toLowerCase (trim r) @ T"
    using T(1,2) by (simp add: toLowerCase_append)
  have 1: "r = trim s \<or> trim s = r @ ascii '';''"
    using accepted_trimmed(4) [OF ok] by (auto simp: ascii_def)
  have 2: "startsWith (toLowerCase (trim r)) (ascii ''select'')"
    using p(1) T(3) unfolding L by (blast intro: startsWith_cut)
  have "statementCount (trim r) \<le> statementCount (trim s)"
    unfolding T(1) by (rule statementCount_append_le)
  with p(2) have 3: "statementCount (toLowerCase (trim r)) \<le> 1"
    by (simp add: statementCount_toLowerCase)
  have 4: "\<not> includesStr (toLowerCase (trim r)) (ascii ''--'')"
    using p(4) unfolding L by (blast intro: includesStr_append)
  have 5: "\<not> includesStr (toLowerCase (trim r)) (ascii ''/*'')"
    using p(5) unfolding L by (blast intro: includesStr_append)
  have 6: "\<not> banned_test (toLowerCase (trim r))"
    using p(3) T(3) unfolding L by (blast intro: banned_test_append)
  from 1 2 3 4 5 6 show ?thesis by blast
qed

theorem sanitized_query_invariant_witness:
  "sanitizeSql (JsString (ascii '' Select 1 ;;; '')) = Inr (ascii ''Select 1 ;;'') \<and>
   statementCount (toLowerCase (trim (ascii ''Select 1 ;;''))) \<le> 1 \<and>
   \<not> banned_test (toLowerCase (trim (ascii ''Select 1 ;;'')))"
proof -
  have e: "sanitizeSql (JsString (ascii '' Select 1 ;;; '')) = Inr (ascii ''Select 1 ;;'')"
    by (simp add: sanitize_eval)
  from sanitized_query_invariant [OF e] e show ?thesis by blast
qed

text \<open>
  The claim as written fails: \<open>select 1;;;\<close> is accepted, and the result \<open>select 1;;\<close>
  holds two semicolons.
\<close>

theorem sanitized_query_counterexample:
  "sanitizeSql (JsString (ascii ''select 1;;;'')) = Inr (ascii ''select 1;;'') \<and>
   toLowerCase (trim (ascii ''select 1;;'')) = ascii ''select 1;;'' \<and>
   count_list (ascii ''select 1;;'') 0x3B = 2"
  by (simp add: sanitize_eval)

text \<open>
  Claim C7. When \<open>sanitizeSql\<close> accepts an input with result \<open>r\<close>, it accepts \<open>r\<close>
  followed by a semicolon as well, with the same result.
\<close>

theorem sanitize_idempotent:
  assumes "sanitizeSql v = Inr r"
  shows "sanitizeSql (JsString (r @ ascii '';'')) = Inr r"
proof -
  from assms obtain s where v: "v = JsString s" by (auto dest: sanitizeSql_Inr_string)
  with assms have ok: "sanitizeString s = Inr r" by simp
  note sh = accepted_trimmed [OF ok]
  have semi: "ascii '';'' = [0x3B]" by (simp add: ascii_def)
  from ok have p: "s \<noteq> []" "startsWith (toLowerCase (trim s)) (ascii ''select'')"
      "statementCount (trim s) \<le> 1" "\<not> banned_test (toLowerCase (trim s))"
      "\<not> includesStr (toLowerCase (trim s)) (ascii ''--'')"
      "\<not> includesStr (toLowerCase (trim s)) (ascii ''/*'')"
    by (simp_all add: sanitizeString_Inr_iff)
  from sh(4) have "sanitizeString (r @ [0x3B]) = Inr r"
  proof
    assume a: "trim s = r @ [0x3B] \<and> r \<noteq> []"
    then have "trim (r @ [0x3B]) = trim s" by (metis trim_trim)
    with p(1) have "sanitizeString (r @ [0x3B]) = sanitizeString s"
      by (intro sanitizeString_trim_cong) simp_all
    with ok show ?thesis by simp
  next
    assume a: "r = trim s \<and> \<not> endsWith (trim s) [0x3B]"
    let ?u = "r @ [0x3B]"
    have r: "r \<noteq> []" "\<not> isWhiteSpace (hd r)" using a sh(1,2) by simp_all
    have "\<not> isWhiteSpace (0x3B :: code_unit)" by (simp add: isWhiteSpace_def)
    with r have tu: "trim ?u = ?u" by (intro trim_id) simp_all
    have Lu: "toLowerCase ?u = toLowerCase r @ [0x3B]"
      by (simp add: toLowerCase_append toLowerCase_plain)
    have 1: "startsWith (toLowerCase ?u) (ascii ''select'')"
      unfolding Lu using p(2) a by (simp add: startsWith_append)
    have 2: "statementCount ?u \<le> 1"
      using p(3) a by (simp add: statementCount_snoc_semi)
    have "\<not> isWordChar (0x3B :: code_unit)" by (simp add: isWordChar_def)
    then have 3: "\<not> banned_test (toLowerCase ?u)"
      unfolding Lu using p(4) a by (auto dest: banned_test_snoc)
    have 4: "\<not> includesStr (toLowerCase ?u) (ascii ''--'')"
      unfolding Lu using p(5) a
      by (auto dest!: includesStr_snoc [rotated 2] simp: ascii_def)
    have 5: "\<not> includesStr (toLowerCase ?u) (ascii ''/*'')"
      unfolding Lu using p(6) a
      by (auto dest!: includesStr_snoc [rotated 2] simp: ascii_def)
    have 6: "stripped ?u = r"
      unfolding stripped_def tu by (simp add: semi endsWith_single slice_butlast)
    from 1 2 3 4 5 6 show ?thesis
      unfolding sanitizeString_Inr_iff tu by simp
  qed
  then show ?thesis by (simp add: semi)
qed

theorem sanitize_idempotent_witness:
  "sanitizeSql (JsString (ascii ''select * from users limit 50'' @ ascii '';'')) =
     Inr (ascii ''select * from users limit 50'')"
proof -
  have "sanitizeSql (JsString (ascii ''  select * from users limit 50;  '')) =
      Inr (ascii ''select * from users limit 50'')"
    by code_simp
  then show ?thesis by (rule sanitize_idempotent)
qed

section \<open>Properties of the schema snapshotter\<close>

lemma loadSchema_cache_hit:
  assumes "cachedSchema st = Some cached" and "cached \<noteq> []"
    and "now env - cachedSchemaLoadedAt st < SCHEMA_CACHE_MS"
  shows "loadSchema env st = (Inr cached, st, [])"
  using assms by (simp add: loadSchema_def)

lemma loadSchema_refresh:
  assumes "cachedSchema st = None \<or> cachedSchema st = Some [] \<or>
           SCHEMA_CACHE_MS \<le> now env - cachedSchemaLoadedAt st"
    and "connectResult env = None"
    and "columnsResult env = Inr cols" and "countsResult env = Inr counts"
  shows "loadSchema env st =
           (Inr (buildSnapshot cols counts),
            st\<lparr>cachedSchema := Some (buildSnapshot cols counts), cachedSchemaLoadedAt := now env\<rparr>,
            [PoolConnect, QueryColumns, QueryCounts, ClientRelease])"
  using assms by (auto simp: loadSchema_def refreshSchema_def Let_def split: option.splits)

text \<open>
  Two calls in a row: when the first call returns a snapshot that is not empty and the
  second call comes within the window, the second call returns the same string and
  reaches for nothing outside.
\<close>

lemma loadSchema_twice:
  assumes "loadSchema env1 st = (Inr schema, st1, tr1)" and "schema \<noteq> []"
    and "cachedSchemaLoadedAt st1 = now env1 \<or> tr1 = []"
    and "now env2 - cachedSchemaLoadedAt st1 < SCHEMA_CACHE_MS"
  shows "cachedSchema st1 = Some schema \<and> loadSchema env2 st1 = (Inr schema, st1, [])"
proof -
  from assms(1) have "cachedSchema st1 = Some schema"
    by (auto simp: loadSchema_def refreshSchema_def Let_def
        split: option.splits sum.splits if_splits)
  with assms(2,4) show ?thesis by (simp add: loadSchema_cache_hit)
qed

lemma schemaLine_format:
  "schemaLine (tableKey schema name, \<lparr>columns = cs, meta = m\<rparr>) =
     schema @ ascii ''.'' @ name @ m @ ascii '': '' @ join cs (ascii '', '')"
  by (simp add: schemaLine_def tableKey_def)

lemma metaOf_estimate:
  "mapGet countMap key = Some (Some est) \<Longrightarrow>
     metaOf countMap key = ascii '' (est_rows ~'' @ est @ ascii '')''"
  by (simp add: metaOf_def)

lemma metaOf_no_estimate:
  "mapGet countMap key = None \<or> mapGet countMap key = Some None \<Longrightarrow> metaOf countMap key = []"
  by (auto simp: metaOf_def)

text \<open>
  A snapshot of two tables, the first with an estimate of its rows and the second
  without one.
\<close>

lemma buildSnapshot_example:
  "buildSnapshot
     [\<lparr>table_schema = ascii ''public'', table_name = ascii ''users'',
       column_name = ascii ''id'', data_type = ascii ''integer''\<rparr>,
      \<lparr>table_schema = ascii ''public'', table_name = ascii ''users'',
       column_name = ascii ''name'', data_type = ascii ''text''\<rparr>,
      \<lparr>table_schema = ascii ''public'', table_name = ascii ''v'',
       column_name = ascii ''x'', data_type = ascii ''text''\<rparr>]
     [\<lparr>nspname = ascii ''public'', relname = ascii ''users'', est_rows = Some (ascii ''42'')\<rparr>,
      \<lparr>nspname = ascii ''public'', relname = ascii ''v'', est_rows = None\<rparr>] =
   ascii ''public.users (est_rows ~42): id (integer), name (text)'' @ [0x0A] @
   ascii ''public.v: x (text)''"
  by (simp add: buildSnapshot_def tableMapOf_def countMapOf_def addColumn_def metaOf_def
      mapGet_def tableKey_def schemaLine_def ascii_def Let_def)

text \<open>
  Claim C8, at the input where the code departs from it. Against a database without
  visible tables both metadata queries return no rows, the snapshot is the empty
  string, and the test of truthiness takes the cached empty string for no cache: a
  second call one millisecond later sends both queries again.
\<close>

theorem empty_snapshot_queried_again:
  "loadSchema \<lparr>now = 1000, connectResult = None, columnsResult = Inr [], countsResult = Inr []\<rparr>
     initialCache =
     (Inr [], \<lparr>cachedSchema = Some [], cachedSchemaLoadedAt = 1000\<rparr>,
      [PoolConnect, QueryColumns, QueryCounts, ClientRelease]) \<and>
   loadSchema \<lparr>now = 1001, connectResult = None, columnsResult = Inr [], countsResult = Inr []\<rparr>
     \<lparr>cachedSchema = Some [], cachedSchemaLoadedAt = 1000\<rparr> =
     (Inr [], \<lparr>cachedSchema = Some [], cachedSchemaLoadedAt = 1001\<rparr>,
      [PoolConnect, QueryColumns, QueryCounts, ClientRelease])"
  by (simp add: loadSchema_def refreshSchema_def initialCache_def buildSnapshot_def
      tableMapOf_def countMapOf_def)

text \<open>
  Claim C10. A call of \<open>loadSchema\<close> that fails leaves the cache as it was; a
  metadata query that fails makes the call fail; and the events of a call are none
  (the cache answered), or the attempt to connect alone (it failed, so there is no
  connection), or the connection, the two queries and the release, in this order.
\<close>

theorem loadSchema_failure_keeps_cache:
  assumes "loadSchema env st = (res, st', tr)"
  shows "(isl res \<longrightarrow> st' = st) \<and>
         (QueryColumns \<in> set tr \<and> (isl (columnsResult env) \<or> isl (countsResult env))
            \<longrightarrow> isl res \<and> st' = st) \<and>
         (tr = [] \<or>
          (connectResult env \<noteq> None \<and> tr = [PoolConnect]) \<or>
          (connectResult env = None \<and>
           tr = [PoolConnect, QueryColumns, QueryCounts, ClientRelease]))"
proof -
  have r: "\<And>res st' tr. refreshSchema env st = (res, st', tr) \<Longrightarrow>
      (isl res \<longrightarrow> st' = st) \<and>
      (QueryColumns \<in> set tr \<and> (isl (columnsResult env) \<or> isl (countsResult env))
         \<longrightarrow> isl res \<and> st' = st) \<and>
      (tr = [] \<or>
       (connectResult env \<noteq> None \<and> tr = [PoolConnect]) \<or>
       (connectResult env = None \<and>
        tr = [PoolConnect, QueryColumns, QueryCounts, ClientRelease]))"
    by (auto simp: refreshSchema_def Let_def split: option.splits sum.splits)
  show ?thesis
  proof (cases "loadSchema env st = refreshSchema env st")
    case True
    with assms r show ?thesis by simp
  next
    case False
    then have "loadSchema env st = (Inr (the (cachedSchema st)), st, [])"
      by (auto simp: loadSchema_def split: option.splits if_splits)
    with assms show ?thesis by simp
  qed
qed

theorem loadSchema_failure_keeps_cache_witness:
  "loadSchema
     \<lparr>now = 400000, connectResult = None, columnsResult = Inr [],
      countsResult = Inl (ascii ''timeout'')\<rparr>
     \<lparr>cachedSchema = Some (ascii ''public.t: a (text)''), cachedSchemaLoadedAt = 1000\<rparr> =
   (Inl (ascii ''timeout''),
    \<lparr>cachedSchema = Some (ascii ''public.t: a (text)''), cachedSchemaLoadedAt = 1000\<rparr>,
    [PoolConnect, QueryColumns, QueryCounts, ClientRelease])"
proof -
  let ?env = "\<lparr>now = 400000, connectResult = None, columnsResult = Inr [],
      countsResult = Inl (ascii ''timeout'')\<rparr>"
  let ?st = "\<lparr>cachedSchema = Some (ascii ''public.t: a (text)''), cachedSchemaLoadedAt = 1000\<rparr>"
  obtain res st' tr where l: "loadSchema ?env ?st = (res, st', tr)"
    by (cases "loadSchema ?env ?st") auto
  have "tr \<noteq> [] \<and> res = Inl (ascii ''timeout'')"
    using l by (auto simp: loadSchema_def refreshSchema_def SCHEMA_CACHE_MS_def)
  with loadSchema_failure_keeps_cache [OF l] l show ?thesis by auto
qed

section \<open>Properties of the query endpoint\<close>

lemma questionMissing_string:
  "\<not> questionMissing question \<Longrightarrow> \<exists>q. question = JsString q \<and> q \<noteq> [] \<and> trim q \<noteq> []"
  by (cases question) (auto simp: questionMissing_def)

lemma afterModel_model_failure: "modelResult env = Inl m \<Longrightarrow> afterModel env = Inl m"
  by (simp add: afterModel_def)

lemma afterModel_sanitize_failure:
  assumes "modelResult env = Inr (Some content)" and "content \<noteq> []"
    and "jsonParse env content = Some (Parsed sqlValue notesValue)" and "truthy sqlValue"
    and "sanitizeSql sqlValue = Inl e"
  shows "afterModel env = Inl (ascii (errorMessage e))"
  using assms by (simp add: afterModel_def)

lemma afterModel_success:
  assumes "afterModel env = Inr (sql, notes)"
  shows "\<exists>content sqlValue notesValue. modelResult env = Inr (Some content) \<and>
           jsonParse env content = Some (Parsed sqlValue notesValue) \<and>
           sanitizeSql sqlValue = Inr sql"
  using assms
  by (auto simp: afterModel_def split: sum.splits option.splits if_splits parsed.splits)

text \<open>
  Claim C9. A request without a usable question is answered with status 400 and
  \<open>Question is required\<close>, the cache is left alone and nothing outside is called.
  With a usable question, \<open>q\<close>, the answer follows the pipeline: a failure of the
  snapshotter, of the model step (the call, the decoding or the sanitizer; the query is
  not run then) or of the execution gives status 400 with the message of that failure,
  and success gives status 200 with the sanitized statement, the notes, the rows and
  the row count.
\<close>

theorem postQuery_responses:
  assumes "loadSchema env st = (schemaResult, st', tr)"
  shows
    "(questionMissing question \<longrightarrow>
        postQuery env question st = ((400, ErrorBody (ascii ''Question is required'')), st, [])) \<and>
     (\<not> questionMissing (JsString q) \<longrightarrow>
        (schemaResult = Inl m \<longrightarrow>
           postQuery env (JsString q) st = ((400, ErrorBody m), st', tr)) \<and>
        (schemaResult = Inr schema \<and> afterModel env = Inl m \<longrightarrow>
           postQuery env (JsString q) st =
             ((400, ErrorBody m), st', tr @ [ModelCall (trim q)])) \<and>
        (schemaResult = Inr schema \<and> afterModel env = Inr (sql, notes) \<and>
         queryResult env sql = Inl m \<longrightarrow>
           postQuery env (JsString q) st =
             ((400, ErrorBody m), st', tr @ [ModelCall (trim q), PoolQuery sql])) \<and>
        (schemaResult = Inr schema \<and> afterModel env = Inr (sql, notes) \<and>
         queryResult env sql = Inr result \<longrightarrow>
           postQuery env (JsString q) st =
             ((200, QueryBody sql notes (rows result) (rowCount result)), st',
              tr @ [ModelCall (trim q), PoolQuery sql])))"
proof (intro conjI impI)
  assume "questionMissing question"
  then show "postQuery env question st =
      ((400, ErrorBody (ascii ''Question is required'')), st, [])"
    by (cases question) (auto simp: questionMissing_def postQuery_def)
next
  assume "\<not> questionMissing (JsString q)" "schemaResult = Inl m"
  with assms show "postQuery env (JsString q) st = ((400, ErrorBody m), st', tr)"
    by (simp add: questionMissing_def postQuery_def buildSql_def)
next
  assume "\<not> questionMissing (JsString q)" "schemaResult = Inr schema \<and> afterModel env = Inl m"
  with assms show "postQuery env (JsString q) st =
      ((400, ErrorBody m), st', tr @ [ModelCall (trim q)])"
    by (simp add: questionMissing_def postQuery_def buildSql_def)
next
  assume "\<not> questionMissing (JsString q)"
    "schemaResult = Inr schema \<and> afterModel env = Inr (sql, notes) \<and>
     queryResult env sql = Inl m"
  with assms show "postQuery env (JsString q) st =
      ((400, ErrorBody m), st', tr @ [ModelCall (trim q), PoolQuery sql])"
    by (simp add: questionMissing_def postQuery_def buildSql_def)
next
  assume "\<not> questionMissing (JsString q)"
    "schemaResult = Inr schema \<and> afterModel env = Inr (sql, notes) \<and>
     queryResult env sql = Inr result"
  with assms show "postQuery env (JsString q) st =
      ((200, QueryBody sql notes (rows result) (rowCount result)), st',
       tr @ [ModelCall (trim q), PoolQuery sql])"
    by (simp add: questionMissing_def postQuery_def buildSql_def)
qed

theorem postQuery_responses_witness:
  "postQuery
     \<lparr>now = 1000, connectResult = None, columnsResult = Inr [], countsResult = Inr [],
      modelResult = Inr (Some (ascii ''{}'')),
      jsonParse = (\<lambda>content. Some (Parsed (JsString (ascii ''select 1;'')) JsUndefined)),
      queryResult = (\<lambda>sql. Inr \<lparr>rows = [], rowCount = 0\<rparr>)\<rparr>
     (JsString (ascii '' hi '')) initialCache =
   ((200, QueryBody (ascii ''select 1'') (JsString []) [] 0),
    \<lparr>cachedSchema = Some [], cachedSchemaLoadedAt = 1000\<rparr>,
    [PoolConnect, QueryColumns, QueryCounts, ClientRelease,
     ModelCall (ascii ''hi''), PoolQuery (ascii ''select 1'')])"
proof -
  let ?env = "\<lparr>now = 1000, connectResult = None, columnsResult = Inr [], countsResult = Inr [],
      modelResult = Inr (Some (ascii ''{}'')),
      jsonParse = (\<lambda>content. Some (Parsed (JsString (ascii ''select 1;'')) JsUndefined)),
      queryResult = (\<lambda>sql. Inr \<lparr>rows = [], rowCount = 0\<rparr>)\<rparr>"
  have l: "loadSchema ?env initialCache =
      (Inr [], \<lparr>cachedSchema = Some [], cachedSchemaLoadedAt = 1000\<rparr>,
       [PoolConnect, QueryColumns, QueryCounts, ClientRelease])"
    by (simp add: loadSchema_def refreshSchema_def initialCache_def buildSnapshot_def
        tableMapOf_def countMapOf_def)
  have s: "sanitizeString (ascii ''select 1;'') = Inr (ascii ''select 1'')"
    by (simp add: sanitize_eval)
  have n: "\<And>x. (ascii x = []) = (x = [])"
    by (simp add: ascii_def)
  have a: "afterModel ?env = Inr (ascii ''select 1'', JsString [])"
    by (simp add: afterModel_def s n)
  have q: "\<not> questionMissing (JsString (ascii '' hi ''))"
    by (simp add: questionMissing_def ascii_def trim_def isWhiteSpace_def)
  have t: "trim (ascii '' hi '') = ascii ''hi''"
    by (simp add: ascii_def trim_def isWhiteSpace_def)
  have r: "queryResult ?env (ascii ''select 1'') = Inr \<lparr>rows = [], rowCount = 0\<rparr>"
    by simp
  from postQuery_responses [OF l, of _ "ascii '' hi ''" _ "[]" "ascii ''select 1''" "JsString []"
      "\<lparr>rows = [], rowCount = 0\<rparr>"] q a r
  show ?thesis by (simp add: t)
qed

end
